theory Spec2Isabelle
  imports Main
begin

section \<open>The execution store repository\<close>

text \<open>
  A shallow embedding of \<^verbatim>\<open>fiftyone/factory/repos/execution_store.py\<close>: the
  repository classes \<^verbatim>\<open>ExecutionStoreRepo\<close> and \<^verbatim>\<open>MongoExecutionStoreRepo\<close>,
  together with the part of the backing collection they rely on (insert, find, count,
  delete, update with upsert, unique and expiring indexes).

  The collection is shared by every repository instance, so it is passed explicitly:
  each method takes the collection and the \<^verbatim>\<open>dataset_id\<close> its instance is bound to,
  and returns the collection it leaves behind. A method that reads the clock takes the
  reading as the argument \<open>now\<close>.
\<close>

subsection \<open>Documents\<close>

type_synonym oid = nat \<comment> \<open>\<^verbatim>\<open>bson.ObjectId\<close>\<close>
type_synonym time = int \<comment> \<open>\<^verbatim>\<open>datetime\<close>, in seconds\<close>

text \<open>
  Modelled from the spec: the classes \<^verbatim>\<open>KeyDocument\<close> and \<^verbatim>\<open>StoreDocument\<close> of
  \<^verbatim>\<open>fiftyone.operators.store.models\<close>, which the file imports. A key entry has a store
  name, a key, a value, an owning context, two timestamps and a nullable expiration; a
  store marker has a store name, an owning context and the reserved key, and nothing
  else. One record type holds both, as one collection does. A field that is null and a
  field that is absent are both \<open>None\<close>; the payload \<^verbatim>\<open>value\<close> is the field \<open>val\<close>.
\<close>

record 'v KeyDocument =
  ident :: "oid option" \<comment> \<open>\<^verbatim>\<open>_id\<close>\<close>
  store_name :: string
  key :: string
  val :: "'v option"
  created_at :: "time option"
  updated_at :: "time option"
  expires_at :: "time option"
  dataset_id :: "oid option"

definition StoreDocument :: "string \<Rightarrow> oid option \<Rightarrow> 'v KeyDocument" where
  "StoreDocument sname ds =
     \<lparr>ident = None, store_name = sname, key = ''__store__'', val = None,
      created_at = None, updated_at = None, expires_at = None, dataset_id = ds\<rparr>"

text \<open>
  Modelled from the spec: \<^verbatim>\<open>KeyDocument.get_expiration\<close>. The expiration is
  \<open>now + ttl\<close> when a ttl is given and positive, and null otherwise.
\<close>

definition get_expiration :: "time \<Rightarrow> int option \<Rightarrow> time option" where
  "get_expiration now ttl =
     (case ttl of None \<Rightarrow> None
      | Some t \<Rightarrow> if 0 < t then Some (now + t) else None)"

text \<open>
  A Python dict of fields, as passed to the collection, is a list of typed field
  assignments.
\<close>

datatype 'v field =
    Set_store_name string
  | Set_key string
  | Set_value "'v option"
  | Set_created_at "time option"
  | Set_updated_at "time option"
  | Set_expires_at "time option"
  | Set_dataset_id "oid option"

fun field_name :: "'v field \<Rightarrow> string" where
  "field_name (Set_store_name _) = ''store_name''"
| "field_name (Set_key _) = ''key''"
| "field_name (Set_value _) = ''value''"
| "field_name (Set_created_at _) = ''created_at''"
| "field_name (Set_updated_at _) = ''updated_at''"
| "field_name (Set_expires_at _) = ''expires_at''"
| "field_name (Set_dataset_id _) = ''dataset_id''"

fun set_field :: "'v field \<Rightarrow> 'v KeyDocument \<Rightarrow> 'v KeyDocument" where
  "set_field (Set_store_name x) d = d\<lparr>store_name := x\<rparr>"
| "set_field (Set_key x) d = d\<lparr>key := x\<rparr>"
| "set_field (Set_value x) d = d\<lparr>val := x\<rparr>"
| "set_field (Set_created_at x) d = d\<lparr>created_at := x\<rparr>"
| "set_field (Set_updated_at x) d = d\<lparr>updated_at := x\<rparr>"
| "set_field (Set_expires_at x) d = d\<lparr>expires_at := x\<rparr>"
| "set_field (Set_dataset_id x) d = d\<lparr>dataset_id := x\<rparr>"

definition assign_all :: "'v field list \<Rightarrow> 'v KeyDocument \<Rightarrow> 'v KeyDocument" where
  "assign_all as d = foldl (\<lambda>d a. set_field a d) d as"

text \<open>
  Modelled from the spec: \<^verbatim>\<open>to_mongo_dict\<close> of \<^verbatim>\<open>KeyDocument\<close>, which the repository
  calls to turn a document into the dict it hands to the collection. The dict holds every
  attribute of the document but \<^verbatim>\<open>_id\<close>, which the collection assigns.
\<close>

definition to_mongo_dict :: "'v KeyDocument \<Rightarrow> 'v field list" where
  "to_mongo_dict d =
     [Set_store_name (store_name d), Set_key (key d), Set_value (val d),
      Set_created_at (created_at d), Set_updated_at (updated_at d),
      Set_expires_at (expires_at d), Set_dataset_id (dataset_id d)]"

text \<open>The document with no field set, from which a stored document is filled in.\<close>

definition blank :: "'v KeyDocument" where
  "blank = \<lparr>ident = None, store_name = [], key = [], val = None, created_at = None,
            updated_at = None, expires_at = None, dataset_id = None\<rparr>"

subsection \<open>The backing collection\<close>

text \<open>
  The collection holds its documents in insertion order, the indexes created on it and
  the next fresh \<^verbatim>\<open>_id\<close>. An index has a name, the fields it is built on, a uniqueness
  flag and, for an expiring index, \<^verbatim>\<open>expireAfterSeconds\<close>. The engine's own index on
  \<^verbatim>\<open>_id\<close> is left out: the collection hands out fresh identifiers itself.
\<close>

record index =
  idx_name :: string
  idx_keys :: "string list"
  idx_unique :: bool
  expireAfterSeconds :: "int option"

record 'v collection =
  docs :: "'v KeyDocument list"
  indexes :: "index list"
  next_id :: oid

datatype error = DuplicateKeyError

definition bind :: "error + 'a \<Rightarrow> ('a \<Rightarrow> error + 'b) \<Rightarrow> error + 'b" where
  "bind r f = (case r of Inl e \<Rightarrow> Inl e | Inr x \<Rightarrow> f x)"

text \<open>Two documents agree on a field; a field no document has is null in both.\<close>

definition same_field :: "string \<Rightarrow> 'v KeyDocument \<Rightarrow> 'v KeyDocument \<Rightarrow> bool" where
  "same_field f d d' =
     (if f = ''_id'' then ident d = ident d'
      else if f = ''store_name'' then store_name d = store_name d'
      else if f = ''key'' then key d = key d'
      else if f = ''value'' then val d = val d'
      else if f = ''created_at'' then created_at d = created_at d'
      else if f = ''updated_at'' then updated_at d = updated_at d'
      else if f = ''expires_at'' then expires_at d = expires_at d'
      else if f = ''dataset_id'' then dataset_id d = dataset_id d'
      else True)"

definition index_key_equal :: "index \<Rightarrow> 'v KeyDocument \<Rightarrow> 'v KeyDocument \<Rightarrow> bool" where
  "index_key_equal ix d d' = list_all (\<lambda>f. same_field f d d') (idx_keys ix)"

text \<open>A new document \<open>d\<close> collides with a stored one under some unique index.\<close>

definition duplicate_key :: "index list \<Rightarrow> 'v KeyDocument \<Rightarrow> 'v KeyDocument list \<Rightarrow> bool" where
  "duplicate_key ixs d ds =
     list_ex (\<lambda>ix. idx_unique ix \<and> list_ex (index_key_equal ix d) ds) ixs"

text \<open>
  Replacing the stored \<open>d\<close> by \<open>d'\<close> collides under some unique index: the index entry
  moves only when the indexed fields change, and then it must be free.
\<close>

definition update_conflict ::
  "index list \<Rightarrow> 'v KeyDocument \<Rightarrow> 'v KeyDocument \<Rightarrow> 'v KeyDocument list \<Rightarrow> bool" where
  "update_conflict ixs d d' ds =
     list_ex (\<lambda>ix. idx_unique ix \<and> \<not> index_key_equal ix d d'
                  \<and> list_ex (index_key_equal ix d') ds) ixs"

text \<open>Two stored documents already collide on the fields \<open>ks\<close>.\<close>

fun has_duplicates :: "string list \<Rightarrow> 'v KeyDocument list \<Rightarrow> bool" where
  "has_duplicates ks [] = False"
| "has_duplicates ks (d # ds) =
     (list_ex (\<lambda>d'. list_all (\<lambda>f. same_field f d d') ks) ds \<or> has_duplicates ks ds)"

subsubsection \<open>Queries\<close>

text \<open>
  A filter dict is a list of conditions, all of which must hold. The repository uses
  equality on \<^verbatim>\<open>store_name\<close>, \<^verbatim>\<open>key\<close> and \<^verbatim>\<open>dataset_id\<close>, and \<^verbatim>\<open>$ne\<close> on \<^verbatim>\<open>key\<close>.
\<close>

datatype cond =
    Eq_store_name string
  | Eq_key string
  | Ne_key string
  | Eq_dataset_id "oid option"

fun holds :: "cond \<Rightarrow> 'v KeyDocument \<Rightarrow> bool" where
  "holds (Eq_store_name x) d = (store_name d = x)"
| "holds (Eq_key x) d = (key d = x)"
| "holds (Ne_key x) d = (key d \<noteq> x)"
| "holds (Eq_dataset_id x) d = (dataset_id d = x)"

definition matches :: "cond list \<Rightarrow> 'v KeyDocument \<Rightarrow> bool" where
  "matches flt d = list_all (\<lambda>c. holds c d) flt"

definition find_one :: "'v collection \<Rightarrow> cond list \<Rightarrow> 'v KeyDocument option" where
  "find_one c flt = find (matches flt) (docs c)"

definition find_docs :: "'v collection \<Rightarrow> cond list \<Rightarrow> 'v KeyDocument list" where
  "find_docs c flt = filter (matches flt) (docs c)"

definition count_documents :: "'v collection \<Rightarrow> cond list \<Rightarrow> nat" where
  "count_documents c flt = length (filter (matches flt) (docs c))"

subsubsection \<open>Insertion and deletion\<close>

text \<open>
  \<^verbatim>\<open>insert_one\<close> stores the dict under a fresh \<^verbatim>\<open>_id\<close> and returns that identifier;
  a collision under a unique index raises and stores nothing.
\<close>

definition insert_one ::
  "'v collection \<Rightarrow> 'v field list \<Rightarrow> error + ('v collection \<times> oid)" where
  "insert_one c document =
     (let d = (assign_all document blank)\<lparr>ident := Some (next_id c)\<rparr> in
      if duplicate_key (indexes c) d (docs c) then Inl DuplicateKeyError
      else Inr (c\<lparr>docs := docs c @ [d], next_id := Suc (next_id c)\<rparr>, next_id c))"

fun remove_first :: "('a \<Rightarrow> bool) \<Rightarrow> 'a list \<Rightarrow> 'a list" where
  "remove_first P [] = []"
| "remove_first P (x # xs) = (if P x then xs else x # remove_first P xs)"

text \<open>Both deletions return the collection and \<^verbatim>\<open>deleted_count\<close>.\<close>

definition delete_one :: "'v collection \<Rightarrow> cond list \<Rightarrow> 'v collection \<times> nat" where
  "delete_one c flt =
     (c\<lparr>docs := remove_first (matches flt) (docs c)\<rparr>,
      if list_ex (matches flt) (docs c) then 1 else 0)"

definition delete_many :: "'v collection \<Rightarrow> cond list \<Rightarrow> 'v collection \<times> nat" where
  "delete_many c flt =
     (c\<lparr>docs := filter (\<lambda>d. \<not> matches flt d) (docs c)\<rparr>,
      length (filter (matches flt) (docs c)))"

subsubsection \<open>Update and upsert\<close>

record 'v update =
  set_fields :: "'v field list" \<comment> \<open>\<^verbatim>\<open>$set\<close>\<close>
  set_on_insert :: "'v field list" \<comment> \<open>\<^verbatim>\<open>$setOnInsert\<close>\<close>

record update_result =
  matched_count :: nat
  modified_count :: nat
  upserted_id :: "oid option"

fun update_first :: "('a \<Rightarrow> bool) \<Rightarrow> ('a \<Rightarrow> 'a) \<Rightarrow> 'a list \<Rightarrow> 'a list" where
  "update_first P f [] = []"
| "update_first P f (x # xs) = (if P x then f x # xs else x # update_first P f xs)"

text \<open>The equality conditions of a filter, as the fields an upsert starts a new document from.\<close>

fun seed :: "cond list \<Rightarrow> 'v field list" where
  "seed [] = []"
| "seed (Eq_store_name x # cs) = Set_store_name x # seed cs"
| "seed (Eq_key x # cs) = Set_key x # seed cs"
| "seed (Eq_dataset_id x # cs) = Set_dataset_id x # seed cs"
| "seed (Ne_key x # cs) = seed cs"

text \<open>
  \<^verbatim>\<open>update_one\<close> applies \<^verbatim>\<open>$set\<close> to the first matching document; \<^verbatim>\<open>modified_count\<close>
  counts it only if it changed. With no match and \<^verbatim>\<open>upsert\<close>, a new document is built
  from the filter's equalities, \<^verbatim>\<open>$set\<close> and \<^verbatim>\<open>$setOnInsert\<close>, and inserted under a
  fresh \<^verbatim>\<open>_id\<close>.
\<close>

definition update_one ::
  "'v collection \<Rightarrow> cond list \<Rightarrow> 'v update \<Rightarrow> bool \<Rightarrow> error + ('v collection \<times> update_result)" where
  "update_one c flt upd upsert =
     (case find (matches flt) (docs c) of
        Some d \<Rightarrow>
          (let d' = assign_all (set_fields upd) d in
           if update_conflict (indexes c) d d' (docs c) then Inl DuplicateKeyError
           else Inr (c\<lparr>docs := update_first (matches flt) (\<lambda>_. d') (docs c)\<rparr>,
                     \<lparr>matched_count = 1, modified_count = (if d' = d then 0 else 1),
                      upserted_id = None\<rparr>))
      | None \<Rightarrow>
          if upsert then
            (let d' = (assign_all (set_on_insert upd)
                         (assign_all (set_fields upd) (assign_all (seed flt) blank)))
                       \<lparr>ident := Some (next_id c)\<rparr> in
             if duplicate_key (indexes c) d' (docs c) then Inl DuplicateKeyError
             else Inr (c\<lparr>docs := docs c @ [d'], next_id := Suc (next_id c)\<rparr>,
                       \<lparr>matched_count = 0, modified_count = 0,
                        upserted_id = Some (next_id c)\<rparr>))
          else Inr (c, \<lparr>matched_count = 0, modified_count = 0, upserted_id = None\<rparr>))"

subsubsection \<open>Indexes\<close>

definition list_indexes :: "'v collection \<Rightarrow> index list" where
  "list_indexes c = indexes c"

text \<open>Building a unique index fails when stored documents already collide on its fields.\<close>

definition create_index ::
  "'v collection \<Rightarrow> string list \<Rightarrow> string \<Rightarrow> bool \<Rightarrow> int option \<Rightarrow> error + 'v collection" where
  "create_index c ks name uniq expire =
     (if uniq \<and> has_duplicates ks (docs c) then Inl DuplicateKeyError
      else Inr (c\<lparr>indexes := indexes c @
                  [\<lparr>idx_name = name, idx_keys = ks, idx_unique = uniq,
                    expireAfterSeconds = expire\<rparr>]\<rparr>))"

text \<open>
  The engine's background sweep at time \<open>now\<close>: under an expiring index on a field,
  a document whose timestamp in that field plus \<^verbatim>\<open>expireAfterSeconds\<close> has passed is
  removed.
\<close>

definition expired :: "index list \<Rightarrow> time \<Rightarrow> 'v KeyDocument \<Rightarrow> bool" where
  "expired ixs now d =
     list_ex (\<lambda>ix. case expireAfterSeconds ix of
                None \<Rightarrow> False
              | Some n \<Rightarrow> idx_keys ix = [''expires_at''] \<and>
                  (case expires_at d of None \<Rightarrow> False | Some t \<Rightarrow> t + n \<le> now)) ixs"

definition ttl_sweep :: "time \<Rightarrow> 'v collection \<Rightarrow> 'v collection" where
  "ttl_sweep now c = c\<lparr>docs := filter (\<lambda>d. \<not> expired (indexes c) now d) (docs c)\<rparr>"

subsection \<open>\<^verbatim>\<open>ExecutionStoreRepo\<close>\<close>

text \<open>
  In each method \<open>c\<close> is \<^verbatim>\<open>self._collection\<close> and \<open>ds\<close> is \<^verbatim>\<open>self._dataset_id\<close>
  (\<open>None\<close> for the global context).
\<close>

definition create_store ::
  "'v collection \<Rightarrow> oid option \<Rightarrow> string \<Rightarrow> error + ('v collection \<times> 'v KeyDocument)" where
  "create_store c ds sname =
     (let store_doc = StoreDocument sname ds in
      bind (insert_one c (to_mongo_dict store_doc)) (\<lambda>(c', _). Inr (c', store_doc)))"

definition has_store :: "'v collection \<Rightarrow> oid option \<Rightarrow> string \<Rightarrow> bool" where
  "has_store c ds sname =
     (let result = find_one c [Eq_store_name sname, Eq_key ''__store__'', Eq_dataset_id ds]
      in result \<noteq> None)"

definition list_stores :: "'v collection \<Rightarrow> oid option \<Rightarrow> string list" where
  "list_stores c ds =
     (let result = find_docs c [Eq_key ''__store__'', Eq_dataset_id ds]
      in map store_name result)"

definition count_stores :: "'v collection \<Rightarrow> oid option \<Rightarrow> nat" where
  "count_stores c ds = count_documents c [Eq_key ''__store__'', Eq_dataset_id ds]"

definition delete_store :: "'v collection \<Rightarrow> oid option \<Rightarrow> string \<Rightarrow> 'v collection \<times> nat" where
  "delete_store c ds sname = delete_many c [Eq_store_name sname, Eq_dataset_id ds]"

definition set_key ::
  "'v collection \<Rightarrow> oid option \<Rightarrow> time \<Rightarrow> string \<Rightarrow> string \<Rightarrow> 'v option \<Rightarrow> int option
     \<Rightarrow> error + ('v collection \<times> 'v KeyDocument)" where
  "set_key c ds now sname k v ttl =
     (let expiration = get_expiration now ttl;
          key_doc = \<lparr>ident = None, store_name = sname, key = k, val = v,
                     created_at = None, updated_at = Some now, expires_at = expiration,
                     dataset_id = ds\<rparr>;
          on_insert_fields =
            [Set_store_name sname, Set_key k, Set_created_at (Some now),
             Set_expires_at (if ttl \<noteq> None \<and> ttl \<noteq> Some 0 then expiration else None),
             Set_dataset_id ds];
          on_insert_fields =
            (if ds = None then filter (\<lambda>a. field_name a \<noteq> ''dataset_id'') on_insert_fields
             else on_insert_fields);
          update_fields =
            \<lparr>set_fields =
               filter (\<lambda>a. field_name a \<notin> set [''_id'', ''created_at'', ''expires_at'',
                                                ''store_name'', ''key'', ''dataset_id''])
                 (to_mongo_dict key_doc),
             set_on_insert = on_insert_fields\<rparr>
      in bind (update_one c [Eq_store_name sname, Eq_key k, Eq_dataset_id ds] update_fields True)
           (\<lambda>(c', result).
              Inr (c', if upserted_id result \<noteq> None then key_doc\<lparr>created_at := Some now\<rparr>
                       else key_doc\<lparr>updated_at := Some now\<rparr>)))"

definition get_key ::
  "'v collection \<Rightarrow> oid option \<Rightarrow> string \<Rightarrow> string \<Rightarrow> 'v KeyDocument option" where
  "get_key c ds sname k =
     (let raw_key_doc = find_one c [Eq_store_name sname, Eq_key k, Eq_dataset_id ds]
      in raw_key_doc)"

definition update_ttl ::
  "'v collection \<Rightarrow> oid option \<Rightarrow> time \<Rightarrow> string \<Rightarrow> string \<Rightarrow> int option
     \<Rightarrow> error + ('v collection \<times> bool)" where
  "update_ttl c ds now sname k ttl =
     (let expiration = get_expiration now ttl in
      bind (update_one c [Eq_store_name sname, Eq_key k, Eq_dataset_id ds]
              \<lparr>set_fields = [Set_expires_at expiration], set_on_insert = []\<rparr> False)
           (\<lambda>(c', result). Inr (c', modified_count result > 0)))"

definition delete_key :: "'v collection \<Rightarrow> oid option \<Rightarrow> string \<Rightarrow> string \<Rightarrow> 'v collection \<times> bool" where
  "delete_key c ds sname k =
     (let (c', deleted_count) = delete_one c [Eq_store_name sname, Eq_key k, Eq_dataset_id ds]
      in (c', deleted_count > 0))"

definition list_keys :: "'v collection \<Rightarrow> oid option \<Rightarrow> string \<Rightarrow> string list" where
  "list_keys c ds sname =
     (let result = find_docs c [Eq_store_name sname, Ne_key ''__store__'', Eq_dataset_id ds]
      in map key result)"

definition count_keys :: "'v collection \<Rightarrow> oid option \<Rightarrow> string \<Rightarrow> nat" where
  "count_keys c ds sname =
     count_documents c [Eq_store_name sname, Ne_key ''__store__'', Eq_dataset_id ds]"

definition cleanup :: "'v collection \<Rightarrow> oid option \<Rightarrow> 'v collection \<times> nat" where
  "cleanup c ds = delete_many c [Eq_dataset_id ds]"

definition has_store_global :: "'v collection \<Rightarrow> oid option \<Rightarrow> string \<Rightarrow> bool" where
  "has_store_global c ds sname =
     (let result = find_one c [Eq_store_name sname, Eq_key ''__store__'']
      in result \<noteq> None)"

definition list_stores_global :: "'v collection \<Rightarrow> oid option \<Rightarrow> string list" where
  "list_stores_global c ds =
     (let result = find_docs c [Eq_key ''__store__''] in map store_name result)"

definition count_stores_global :: "'v collection \<Rightarrow> oid option \<Rightarrow> nat" where
  "count_stores_global c ds = count_documents c [Eq_key ''__store__'']"

subsection \<open>\<^verbatim>\<open>MongoExecutionStoreRepo\<close>\<close>

text \<open>The closing loop of \<^verbatim>\<open>_create_indexes\<close>, over the names not yet indexed.\<close>

fun create_missing :: "string list \<Rightarrow> string list \<Rightarrow> 'v collection \<Rightarrow> error + 'v collection" where
  "create_missing indices [] c = Inr c"
| "create_missing indices (name # names) c =
     bind (if name \<notin> set indices then create_index c [name] name False None else Inr c)
       (create_missing indices names)"

definition create_indexes :: "'v collection \<Rightarrow> error + 'v collection" where
  "create_indexes c =
     (let indices = map idx_name (list_indexes c);
          expires_at_name = ''expires_at'';
          store_name_name = ''store_name'';
          key_name = ''key'';
          full_key_name = ''unique_store_index'';
          dataset_id_name = ''dataset_id''
      in bind (if expires_at_name \<notin> set indices
               then create_index c [expires_at_name] expires_at_name False (Some 0)
               else Inr c)
           (\<lambda>c. bind (if full_key_name \<notin> set indices
                       then create_index c [store_name_name, key_name, dataset_id_name]
                              full_key_name True None
                       else Inr c)
                  (create_missing indices [store_name_name, key_name, dataset_id_name])))"

text \<open>
  The constructor of \<^verbatim>\<open>MongoExecutionStoreRepo\<close> only binds the collection and the
  context and creates the indexes.
\<close>

definition MongoExecutionStoreRepo :: "'v collection \<Rightarrow> oid option \<Rightarrow> error + 'v collection" where
  "MongoExecutionStoreRepo c ds = create_indexes c"

definition new_collection :: "'v collection" where
  "new_collection = \<lparr>docs = [], indexes = [], next_id = 0\<rparr>"

subsection \<open>Runs of the repository\<close>

text \<open>
  The calls that change the collection. \<open>New_repo\<close> is the construction of one more
  \<^verbatim>\<open>MongoExecutionStoreRepo\<close> on the collection, \<open>Ttl_sweep\<close> the engine's
  background sweep. A call that raises leaves the collection as it was.
\<close>

datatype 'v op =
    Create_store string
  | Delete_store string
  | Set_key time string string "'v option" "int option"
  | Update_ttl time string string "int option"
  | Delete_key string string
  | Cleanup
  | New_repo
  | Ttl_sweep time

definition after :: "'v collection \<Rightarrow> error + ('v collection \<times> 'a) \<Rightarrow> 'v collection" where
  "after c r = (case r of Inl e \<Rightarrow> c | Inr (c', x) \<Rightarrow> c')"

fun exec :: "oid option \<Rightarrow> 'v op \<Rightarrow> 'v collection \<Rightarrow> 'v collection" where
  "exec ds (Create_store sname) c = after c (create_store c ds sname)"
| "exec ds (Delete_store sname) c = fst (delete_store c ds sname)"
| "exec ds (Set_key now sname k v ttl) c = after c (set_key c ds now sname k v ttl)"
| "exec ds (Update_ttl now sname k ttl) c = after c (update_ttl c ds now sname k ttl)"
| "exec ds (Delete_key sname k) c = fst (delete_key c ds sname k)"
| "exec ds Cleanup c = fst (cleanup c ds)"
| "exec ds New_repo c = (case MongoExecutionStoreRepo c ds of Inl e \<Rightarrow> c | Inr c' \<Rightarrow> c')"
| "exec ds (Ttl_sweep now) c = ttl_sweep now c"

text \<open>
  The collections a run can reach: a first \<^verbatim>\<open>MongoExecutionStoreRepo\<close> is constructed
  on a new collection, and then repositories bound to any contexts make calls, each
  call allowed by \<open>P\<close>, in any order.
\<close>

inductive reachable_by :: "('v op \<Rightarrow> bool) \<Rightarrow> 'v collection \<Rightarrow> bool" for P where
  fresh: "MongoExecutionStoreRepo new_collection ds = Inr c \<Longrightarrow> reachable_by P c"
| step: "reachable_by P c \<Longrightarrow> P op \<Longrightarrow> reachable_by P (exec ds op c)"

definition reachable :: "'v collection \<Rightarrow> bool" where
  "reachable c = reachable_by (\<lambda>op. True) c"

text \<open>The identity of a record: store name, key and owning context.\<close>

definition triple :: "'v KeyDocument \<Rightarrow> string \<times> string \<times> oid option" where
  "triple d = (store_name d, key d, dataset_id d)"

definition unique_triples :: "'v collection \<Rightarrow> bool" where
  "unique_triples c = distinct (map triple (docs c))"

text \<open>Every unique index of the collection is on store name, key and context.\<close>

definition store_key_only :: "index list \<Rightarrow> bool" where
  "store_key_only ixs =
     list_all (\<lambda>ix. idx_unique ix \<longrightarrow> idx_keys ix = [''store_name'', ''key'', ''dataset_id'']) ixs"

definition has_store_index :: "index list \<Rightarrow> bool" where
  "has_store_index ixs =
     list_ex (\<lambda>ix. idx_unique ix \<and> idx_keys ix = [''store_name'', ''key'', ''dataset_id'']) ixs"

text \<open>A call of \<^verbatim>\<open>set_key\<close> whose key is the reserved marker key.\<close>

fun sets_marker_key :: "'v op \<Rightarrow> bool" where
  "sets_marker_key (Set_key now sname k v ttl) = (k = ''__store__'')"
| "sets_marker_key _ = False"

text \<open>The collection a first \<^verbatim>\<open>MongoExecutionStoreRepo\<close> leaves behind on a new collection.\<close>

definition initial :: "'v collection" where
  "initial = (case MongoExecutionStoreRepo new_collection None of
                Inl e \<Rightarrow> new_collection | Inr c \<Rightarrow> c)"

text \<open>
  What every run keeps: the indexes are those the constructor created, and no two
  records share store name, key and context.
\<close>

definition repo_inv :: "'v collection \<Rightarrow> bool" where
  "repo_inv c = (indexes c = indexes (initial :: 'v collection) \<and> unique_triples c)"

text \<open>No record under the reserved marker key carries a value.\<close>

definition markers_plain :: "'v collection \<Rightarrow> bool" where
  "markers_plain c = list_all (\<lambda>d. key d = ''__store__'' \<longrightarrow> val d = None) (docs c)"

section \<open>Properties\<close>

subsection \<open>Lists\<close>

lemma find_update_first:
  "find P xs = Some x \<Longrightarrow> P y \<Longrightarrow> find P (update_first P (\<lambda>_. y) xs) = Some y"
  by (induction xs) (auto split: if_splits)

lemma find_snoc:
  "find P (xs @ [y]) =
     (case find P xs of None \<Rightarrow> if P y then Some y else None | Some x \<Rightarrow> Some x)"
  by (induction xs) auto

lemma find_not_None: "find P xs \<noteq> None \<longleftrightarrow> (\<exists>x\<in>set xs. P x)"
  by (induction xs) auto

lemma find_Some_set: "find P xs = Some x \<Longrightarrow> x \<in> set xs \<and> P x"
  by (induction xs) (auto split: if_splits)

lemma map_update_first:
  "find P xs = Some x \<Longrightarrow> g y = g x \<Longrightarrow> map g (update_first P (\<lambda>_. y) xs) = map g xs"
  by (induction xs) (auto split: if_splits)

lemma set_update_first: "set (update_first P (\<lambda>_. y) xs) \<subseteq> insert y (set xs)"
  by (induction xs) auto

lemma length_update_first: "length (update_first P f xs) = length xs"
  by (induction xs) auto

lemma filter_update_first:
  "\<forall>x. P x \<longrightarrow> \<not> Q x \<Longrightarrow> \<not> Q y \<Longrightarrow> filter Q (update_first P (\<lambda>_. y) xs) = filter Q xs"
  by (induction xs) auto

lemma set_remove_first: "set (remove_first P xs) \<subseteq> set xs"
  by (induction xs) auto

lemma distinct_map_remove_first:
  "distinct (map g xs) \<Longrightarrow> distinct (map g (remove_first P xs))"
  using set_remove_first[of P] by (induction xs) auto

lemma filter_remove_first:
  "\<forall>x. P x \<longrightarrow> \<not> Q x \<Longrightarrow> filter Q (remove_first P xs) = filter Q xs"
  by (induction xs) auto

lemma remove_first_distinct:
  "distinct (map g xs) \<Longrightarrow> \<forall>x\<in>set (remove_first (\<lambda>x. g x = t) xs). g x \<noteq> t"
  by (induction xs) (auto simp: image_iff)

lemma length_remove_first:
  "list_ex P xs \<Longrightarrow> Suc (length (remove_first P xs)) = length xs"
  by (induction xs) auto

lemma length_filter_distinct_map:
  "distinct (map g xs) \<Longrightarrow> length (filter (\<lambda>x. g x = t) xs) \<le> 1"
proof (induction xs)
  case Nil
  then show ?case by simp
next
  case (Cons x xs)
  show ?case
  proof (cases "g x = t")
    case True
    with Cons.prems have "filter (\<lambda>x. g x = t) xs = []"
      by (auto simp: filter_empty_conv image_iff)
    with True show ?thesis by simp
  next
    case False
    with Cons show ?thesis by simp
  qed
qed

subsection \<open>Filters and indexes\<close>

lemma matches_fun: "matches flt = (\<lambda>d. list_all (\<lambda>c. holds c d) flt)"
  by (rule ext) (simp add: matches_def)

lemma matches_key:
  "matches [Eq_store_name s, Eq_key k, Eq_dataset_id ds] d \<longleftrightarrow> triple d = (s, k, ds)"
  by (auto simp: matches_def triple_def)

lemma matches_key_fun:
  "matches [Eq_store_name s, Eq_key k, Eq_dataset_id ds] = (\<lambda>d. triple d = (s, k, ds))"
  by (rule ext) (simp add: matches_key)

lemma index_key_equal_store:
  "idx_keys ix = [''store_name'', ''key'', ''dataset_id''] \<Longrightarrow>
   index_key_equal ix d d' \<longleftrightarrow> triple d = triple d'"
  by (auto simp: index_key_equal_def same_field_def triple_def)

lemma no_update_conflict:
  "store_key_only ixs \<Longrightarrow> triple d = triple d' \<Longrightarrow> \<not> update_conflict ixs d d' ds"
  by (auto simp: store_key_only_def update_conflict_def list_all_iff list_ex_iff
      index_key_equal_store)

lemma duplicate_key_triple:
  "store_key_only ixs \<Longrightarrow> duplicate_key ixs d ds \<Longrightarrow> triple d \<in> triple ` set ds"
  by (auto simp: store_key_only_def duplicate_key_def list_all_iff list_ex_iff
      index_key_equal_store)

lemma duplicate_key_iff:
  assumes "store_key_only ixs" and "has_store_index ixs"
  shows "duplicate_key ixs d ds \<longleftrightarrow> triple d \<in> triple ` set ds"
proof
  assume "duplicate_key ixs d ds"
  with assms(1) show "triple d \<in> triple ` set ds" by (rule duplicate_key_triple)
next
  assume "triple d \<in> triple ` set ds"
  then obtain d' where d': "d' \<in> set ds" "triple d = triple d'" by auto
  from assms(2) obtain ix where ix: "ix \<in> set ixs" "idx_unique ix"
      "idx_keys ix = [''store_name'', ''key'', ''dataset_id'']"
    by (auto simp: has_store_index_def list_ex_iff)
  from ix(3) d'(2) have "index_key_equal ix d d'" by (simp add: index_key_equal_store)
  with d'(1) ix(1,2) show "duplicate_key ixs d ds"
    by (auto simp: duplicate_key_def list_ex_iff)
qed

subsection \<open>The first repository\<close>

lemma initial_eq: "MongoExecutionStoreRepo new_collection ds = Inr initial"
  by (simp add: initial_def MongoExecutionStoreRepo_def create_indexes_def new_collection_def
      list_indexes_def create_index_def bind_def Let_def)

lemma initial_collection:
  "initial =
     \<lparr>docs = [],
      indexes =
        [\<lparr>idx_name = ''expires_at'', idx_keys = [''expires_at''], idx_unique = False,
          expireAfterSeconds = Some 0\<rparr>,
         \<lparr>idx_name = ''unique_store_index'',
          idx_keys = [''store_name'', ''key'', ''dataset_id''],
          idx_unique = True, expireAfterSeconds = None\<rparr>,
         \<lparr>idx_name = ''store_name'', idx_keys = [''store_name''], idx_unique = False,
          expireAfterSeconds = None\<rparr>,
         \<lparr>idx_name = ''key'', idx_keys = [''key''], idx_unique = False,
          expireAfterSeconds = None\<rparr>,
         \<lparr>idx_name = ''dataset_id'', idx_keys = [''dataset_id''], idx_unique = False,
          expireAfterSeconds = None\<rparr>],
      next_id = 0\<rparr>"
  by (simp add: initial_def MongoExecutionStoreRepo_def create_indexes_def new_collection_def
      list_indexes_def create_index_def bind_def Let_def)

lemma docs_initial: "docs initial = []"
  by (simp add: initial_collection)

lemma store_key_only_initial: "store_key_only (indexes initial)"
  by (simp add: initial_collection store_key_only_def)

lemma has_store_index_initial: "has_store_index (indexes initial)"
  by (simp add: initial_collection has_store_index_def)

lemma create_indexes_idem:
  assumes "indexes c = indexes (initial :: 'v collection)"
  shows "create_indexes (c :: 'v collection) = Inr c"
  using assms
  by (simp add: create_indexes_def list_indexes_def initial_collection bind_def Let_def)

lemmas run_defs =
  initial_collection set_key_def update_one_def to_mongo_dict_def assign_all_def bind_def
  Let_def blank_def after_def get_key_def find_one_def matches_def duplicate_key_def
  update_conflict_def index_key_equal_def same_field_def get_expiration_def

subsection \<open>The methods in closed form\<close>

lemma has_store_iff:
  "has_store c ds s \<longleftrightarrow> (s, ''__store__'', ds) \<in> triple ` set (docs c)"
  unfolding has_store_def find_one_def Let_def find_not_None
  by (force simp: matches_key)

lemma has_store_iff2:
  "has_store c ds s \<longleftrightarrow>
     (\<exists>d\<in>set (docs c). store_name d = s \<and> key d = ''__store__'' \<and> dataset_id d = ds)"
  unfolding has_store_def find_one_def Let_def find_not_None
  by (simp add: matches_def)

lemma has_store_global_iff:
  "has_store_global c ds s \<longleftrightarrow> (\<exists>d\<in>set (docs c). store_name d = s \<and> key d = ''__store__'')"
  unfolding has_store_global_def find_one_def Let_def find_not_None
  by (simp add: matches_def)

lemma create_store_cases:
  assumes "store_key_only (indexes c)" and "has_store_index (indexes c)"
  shows "create_store (c :: 'v collection) ds s =
     (if has_store c ds s then Inl DuplicateKeyError
      else Inr (c\<lparr>docs := docs c @ [(StoreDocument s ds)\<lparr>ident := Some (next_id c)\<rparr>],
                 next_id := Suc (next_id c)\<rparr>, StoreDocument s ds))"
proof -
  let ?d = "(StoreDocument s ds :: 'v KeyDocument)\<lparr>ident := Some (next_id c)\<rparr>"
  have d: "assign_all (to_mongo_dict (StoreDocument s ds)) blank\<lparr>ident := Some (next_id c)\<rparr> = ?d"
    by (simp add: assign_all_def to_mongo_dict_def StoreDocument_def blank_def)
  have "has_store c ds s \<longleftrightarrow> triple ?d \<in> triple ` set (docs c)"
    by (simp add: has_store_iff triple_def StoreDocument_def)
  then have "has_store c ds s \<longleftrightarrow> duplicate_key (indexes c) ?d (docs c)"
    by (simp add: duplicate_key_iff[OF assms])
  then show ?thesis
    by (simp add: create_store_def insert_one_def bind_def Let_def d)
qed

lemma create_store_result:
  assumes "create_store c ds s = Inr (c', m)"
  shows "docs c' = docs c @ [(StoreDocument s ds)\<lparr>ident := Some (next_id c)\<rparr>] \<and>
         m = StoreDocument s ds"
  using assms
  by (auto simp: create_store_def insert_one_def bind_def Let_def assign_all_def
      to_mongo_dict_def StoreDocument_def blank_def split: if_splits)

lemma set_key_existing:
  assumes "find (matches [Eq_store_name s, Eq_key k, Eq_dataset_id ds]) (docs c) = Some d"
    and "store_key_only (indexes c)"
  shows "\<exists>r. set_key c ds now s k v ttl =
           Inr (c\<lparr>docs := update_first (matches [Eq_store_name s, Eq_key k, Eq_dataset_id ds])
                            (\<lambda>_. d\<lparr>val := v, updated_at := Some now\<rparr>) (docs c)\<rparr>, r)"
proof -
  have "\<not> update_conflict (indexes c) d (d\<lparr>val := v, updated_at := Some now\<rparr>) (docs c)"
    using assms(2) by (rule no_update_conflict) (simp add: triple_def)
  then show ?thesis
    using assms(1)
    by (simp add: set_key_def update_one_def to_mongo_dict_def assign_all_def bind_def Let_def)
qed

lemma set_key_new:
  assumes "find (matches [Eq_store_name s, Eq_key k, Eq_dataset_id ds]) (docs c) = None"
    and "store_key_only (indexes c)"
  shows "\<exists>r. set_key c ds now s k v ttl =
           Inr (c\<lparr>docs := docs c @
                    [\<lparr>ident = Some (next_id c), store_name = s, key = k, val = v,
                      created_at = Some now, updated_at = Some now,
                      expires_at = (if ttl \<noteq> None \<and> ttl \<noteq> Some 0
                                    then get_expiration now ttl else None),
                      dataset_id = ds\<rparr>],
                  next_id := Suc (next_id c)\<rparr>, r)"
proof -
  let ?d = "\<lparr>ident = Some (next_id c), store_name = s, key = k, val = v,
             created_at = Some now, updated_at = Some now,
             expires_at = (if ttl \<noteq> None \<and> ttl \<noteq> Some 0
                           then get_expiration now ttl else None),
             dataset_id = ds\<rparr>"
  have "triple ?d \<notin> triple ` set (docs c)"
    using assms(1) by (auto simp: find_None_iff matches_key triple_def)
  then have "\<not> duplicate_key (indexes c) ?d (docs c)"
    using duplicate_key_triple[OF assms(2)] by blast
  then show ?thesis
    using assms(1)
    by (cases ds)
      (auto simp add: set_key_def update_one_def to_mongo_dict_def assign_all_def bind_def
        Let_def blank_def)
qed

lemma set_key_get_key:
  assumes "store_key_only (indexes c)"
  shows "\<exists>c' r e. set_key c ds now s k v ttl = Inr (c', r) \<and> indexes c' = indexes c
           \<and> get_key c' ds s k = Some e \<and> val e = v \<and> updated_at e = Some now
           \<and> created_at e =
               (case get_key c ds s k of None \<Rightarrow> Some now | Some e0 \<Rightarrow> created_at e0)
           \<and> expires_at e =
               (case get_key c ds s k of
                  None \<Rightarrow> if ttl \<noteq> None \<and> ttl \<noteq> Some 0 then get_expiration now ttl else None
                | Some e0 \<Rightarrow> expires_at e0)"
proof (cases "find (matches [Eq_store_name s, Eq_key k, Eq_dataset_id ds]) (docs c)")
  case None
  from set_key_new[OF None assms, of now v ttl] obtain r where
    "set_key c ds now s k v ttl =
       Inr (c\<lparr>docs := docs c @
                [\<lparr>ident = Some (next_id c), store_name = s, key = k, val = v,
                  created_at = Some now, updated_at = Some now,
                  expires_at = (if ttl \<noteq> None \<and> ttl \<noteq> Some 0
                                then get_expiration now ttl else None),
                  dataset_id = ds\<rparr>],
              next_id := Suc (next_id c)\<rparr>, r)"
    by blast
  with None show ?thesis
    by (auto simp add: get_key_def find_one_def find_snoc matches_def)
next
  case (Some d)
  let ?d' = "d\<lparr>val := v, updated_at := Some now\<rparr>"
  from set_key_existing[OF Some assms, of now v] obtain r where
    "set_key c ds now s k v ttl =
       Inr (c\<lparr>docs := update_first (matches [Eq_store_name s, Eq_key k, Eq_dataset_id ds])
                        (\<lambda>_. ?d') (docs c)\<rparr>, r)"
    by blast
  moreover have "matches [Eq_store_name s, Eq_key k, Eq_dataset_id ds] ?d'"
    using Some by (auto simp: find_Some_iff matches_key triple_def)
  ultimately show ?thesis
    using Some find_update_first[OF Some, of ?d']
    by (simp add: get_key_def find_one_def)
qed

lemma update_ttl_cases:
  assumes "store_key_only (indexes c)"
  shows "update_ttl c ds now s k ttl =
     (case find (matches [Eq_store_name s, Eq_key k, Eq_dataset_id ds]) (docs c) of
        None \<Rightarrow> Inr (c, False)
      | Some d \<Rightarrow>
          Inr (c\<lparr>docs := update_first (matches [Eq_store_name s, Eq_key k, Eq_dataset_id ds])
                           (\<lambda>_. d\<lparr>expires_at := get_expiration now ttl\<rparr>) (docs c)\<rparr>,
               expires_at d \<noteq> get_expiration now ttl))"
proof (cases "find (matches [Eq_store_name s, Eq_key k, Eq_dataset_id ds]) (docs c)")
  case None
  then show ?thesis by (simp add: update_ttl_def update_one_def bind_def)
next
  case (Some d)
  have "\<not> update_conflict (indexes c) d (d\<lparr>expires_at := get_expiration now ttl\<rparr>) (docs c)"
    using assms by (rule no_update_conflict) (simp add: triple_def)
  moreover have "(d\<lparr>expires_at := get_expiration now ttl\<rparr> = d) \<longleftrightarrow> expires_at d = get_expiration now ttl"
    by (cases d) auto
  ultimately show ?thesis using Some
    by (simp add: update_ttl_def update_one_def bind_def assign_all_def Let_def)
qed

subsection \<open>What every run keeps\<close>

lemma repo_inv_indexes:
  "repo_inv c \<Longrightarrow> store_key_only (indexes c) \<and> has_store_index (indexes c)"
  by (simp add: repo_inv_def store_key_only_initial has_store_index_initial)

lemma repo_inv_initial: "repo_inv initial"
  by (simp add: repo_inv_def unique_triples_def docs_initial)

lemma inv_create_store: "repo_inv c \<Longrightarrow> repo_inv (after c (create_store c ds s))"
proof -
  assume i: "repo_inv c"
  then have ix: "store_key_only (indexes c)" "has_store_index (indexes c)"
    by (simp_all add: repo_inv_indexes)
  show ?thesis
  proof (cases "has_store c ds s")
    case True
    with i show ?thesis by (simp add: create_store_cases[OF ix] after_def)
  next
    case False
    then have "(s, ''__store__'', ds) \<notin> triple ` set (docs c)"
      by (simp add: has_store_iff)
    with i False show ?thesis
      by (simp add: create_store_cases[OF ix] after_def repo_inv_def unique_triples_def
          triple_def StoreDocument_def)
  qed
qed

lemma inv_delete_many: "repo_inv c \<Longrightarrow> repo_inv (fst (delete_many c flt))"
  by (simp add: repo_inv_def delete_many_def unique_triples_def distinct_map_filter)

lemma inv_delete_one: "repo_inv c \<Longrightarrow> repo_inv (fst (delete_one c flt))"
  by (simp add: repo_inv_def delete_one_def unique_triples_def distinct_map_remove_first)

lemma inv_ttl_sweep: "repo_inv c \<Longrightarrow> repo_inv (ttl_sweep now c)"
  by (simp add: repo_inv_def ttl_sweep_def unique_triples_def distinct_map_filter)

lemma inv_set_key: 
  assumes "repo_inv c" shows "repo_inv (after c (set_key c ds now s k v ttl))"
proof -
  from assms have ix: "store_key_only (indexes c)" by (simp add: repo_inv_indexes)
  show ?thesis
  proof (cases "find (matches [Eq_store_name s, Eq_key k, Eq_dataset_id ds]) (docs c)")
    case None
    then have "(s, k, ds) \<notin> triple ` set (docs c)"
      by (auto simp: find_None_iff matches_key)
    with assms set_key_new[OF None ix, of now v ttl] show ?thesis
      by (auto simp: after_def repo_inv_def unique_triples_def triple_def)
  next
    case (Some d)
    have "map triple (update_first (matches [Eq_store_name s, Eq_key k, Eq_dataset_id ds])
              (\<lambda>_. d\<lparr>val := v, updated_at := Some now\<rparr>) (docs c)) = map triple (docs c)"
      using Some by (rule map_update_first) (simp add: triple_def)
    with assms set_key_existing[OF Some ix, of now v ttl] show ?thesis
      by (auto simp: after_def repo_inv_def unique_triples_def)
  qed
qed

lemma inv_update_ttl:
  assumes "repo_inv c" shows "repo_inv (after c (update_ttl c ds now s k ttl))"
proof -
  from assms have ix: "store_key_only (indexes c)" by (simp add: repo_inv_indexes)
  show ?thesis
  proof (cases "find (matches [Eq_store_name s, Eq_key k, Eq_dataset_id ds]) (docs c)")
    case None
    with assms show ?thesis by (simp add: update_ttl_cases[OF ix] after_def)
  next
    case (Some d)
    have "map triple (update_first (matches [Eq_store_name s, Eq_key k, Eq_dataset_id ds])
              (\<lambda>_. d\<lparr>expires_at := get_expiration now ttl\<rparr>) (docs c)) = map triple (docs c)"
      using Some by (rule map_update_first) (simp add: triple_def)
    with assms Some show ?thesis
      by (simp add: update_ttl_cases[OF ix] after_def repo_inv_def unique_triples_def)
  qed
qed

lemma inv_exec: "repo_inv c \<Longrightarrow> repo_inv (exec ds op c)"
proof (cases op)
  case New_repo
  assume "repo_inv c"
  then show ?thesis
    using New_repo create_indexes_idem[of c]
    by (simp add: MongoExecutionStoreRepo_def repo_inv_def)
qed (simp_all add: inv_create_store inv_delete_many inv_delete_one inv_ttl_sweep inv_set_key
      inv_update_ttl delete_store_def cleanup_def delete_key_def split_def Let_def)

lemma reachable_by_inv: "reachable_by P c \<Longrightarrow> repo_inv c"
proof (induction rule: reachable_by.induct)
  case (fresh ds c)
  then show ?case by (simp add: initial_eq repo_inv_initial)
next
  case (step c op ds)
  then show ?case by (simp add: inv_exec)
qed

subsection \<open>Writing a key twice\<close>

text \<open>
  C1. Writing a key twice in one context: both calls succeed, and reading the key
  afterwards returns an entry that holds the second value, whose \<open>created_at\<close> is the one
  the entry had after the first call (the time of the first call when that call created
  the entry), and whose \<open>updated_at\<close> has moved from the time of the first call to the
  time of the second. The hypothesis says that the collection's unique indexes, if any,
  are on store name, key and context, as the repository's own index is.
\<close>

theorem set_key_twice_get_key:
  assumes "store_key_only (indexes c)"
  shows "\<exists>c1 r1 c2 r2 e1 e2.
     set_key c ds t1 s k v1 ttl1 = Inr (c1, r1) \<and>
     set_key c1 ds t2 s k v2 ttl2 = Inr (c2, r2) \<and>
     get_key c1 ds s k = Some e1 \<and> get_key c2 ds s k = Some e2 \<and>
     val e2 = v2 \<and> created_at e2 = created_at e1 \<and>
     updated_at e1 = Some t1 \<and> updated_at e2 = Some t2 \<and>
     (get_key c ds s k = None \<longrightarrow> created_at e1 = Some t1)"
proof -
  from set_key_get_key[OF assms, of ds t1 s k v1 ttl1] obtain c1 r1 e1 where
    1: "set_key c ds t1 s k v1 ttl1 = Inr (c1, r1)" "indexes c1 = indexes c"
       "get_key c1 ds s k = Some e1" "updated_at e1 = Some t1"
       "created_at e1 = (case get_key c ds s k of None \<Rightarrow> Some t1 | Some e0 \<Rightarrow> created_at e0)"
    by blast
  from assms 1(2) have "store_key_only (indexes c1)" by simp
  from set_key_get_key[OF this, of ds t2 s k v2 ttl2] obtain c2 r2 e2 where
    2: "set_key c1 ds t2 s k v2 ttl2 = Inr (c2, r2)"
       "get_key c2 ds s k = Some e2" "val e2 = v2" "updated_at e2 = Some t2"
       "created_at e2 = (case get_key c1 ds s k of None \<Rightarrow> Some t2 | Some e0 \<Rightarrow> created_at e0)"
    by blast
  from 1 2 show ?thesis by auto
qed

theorem set_key_twice_get_key_witness:
  "store_key_only (indexes (initial :: nat collection)) \<and>
   (\<exists>c1 r1 c2 r2 e1 e2.
     set_key (initial :: nat collection) (Some 1) 100 ''s'' ''k'' (Some 5) None = Inr (c1, r1) \<and>
     set_key c1 (Some 1) 200 ''s'' ''k'' (Some 6) None = Inr (c2, r2) \<and>
     get_key c1 (Some 1) ''s'' ''k'' = Some e1 \<and> get_key c2 (Some 1) ''s'' ''k'' = Some e2 \<and>
     val e2 = Some 6 \<and> created_at e2 = created_at e1 \<and>
     updated_at e1 = Some 100 \<and> updated_at e2 = Some 200 \<and>
     get_key (initial :: nat collection) (Some 1) ''s'' ''k'' = None \<and> created_at e1 = Some 100)"
proof -
  have "get_key (initial :: nat collection) (Some 1) ''s'' ''k'' = None"
    by (simp add: get_key_def find_one_def docs_initial)
  with set_key_twice_get_key[where c = "initial :: nat collection" and ds = "Some 1"
      and ?t1.0 = 100 and s = "''s''" and k = "''k''" and ?v1.0 = "Some 5" and ?ttl1.0 = None
      and ?t2.0 = 200 and ?v2.0 = "Some 6" and ?ttl2.0 = None, OF store_key_only_initial]
  show ?thesis by (simp add: store_key_only_initial)
qed

subsection \<open>Expiration of an existing entry\<close>

text \<open>
  C2, as the code has it. On an existing entry \<^verbatim>\<open>set_key\<close> succeeds and changes the
  value and \<open>updated_at\<close> only: the stored record keeps every other field, so
  \<open>created_at\<close> and the stored \<open>expires_at\<close> are what they were, whatever ttl is
  passed. (\<^verbatim>\<open>expires_at\<close> is among the fields the method keeps out of \<^verbatim>\<open>$set\<close>; the
  ttl reaches the record only through \<^verbatim>\<open>$setOnInsert\<close>, when the entry is created.)
\<close>

theorem set_key_existing_entry:
  assumes "store_key_only (indexes c)" and "get_key c ds s k = Some e"
  shows "\<exists>c' r. set_key c ds now s k v ttl = Inr (c', r) \<and>
           get_key c' ds s k = Some (e\<lparr>val := v, updated_at := Some now\<rparr>)"
proof -
  from assms(2)
  have f: "find (matches [Eq_store_name s, Eq_key k, Eq_dataset_id ds]) (docs c) = Some e"
    by (simp add: get_key_def find_one_def)
  let ?e' = "e\<lparr>val := v, updated_at := Some now\<rparr>"
  from set_key_existing[OF f assms(1), of now v ttl] obtain r where
    r: "set_key c ds now s k v ttl =
       Inr (c\<lparr>docs := update_first (matches [Eq_store_name s, Eq_key k, Eq_dataset_id ds])
                        (\<lambda>_. ?e') (docs c)\<rparr>, r)"
    by blast
  have "matches [Eq_store_name s, Eq_key k, Eq_dataset_id ds] ?e'"
    using f by (auto simp: find_Some_iff matches_key triple_def)
  from find_update_first[OF f this] r show ?thesis
    by (simp add: get_key_def find_one_def)
qed

theorem set_key_existing_entry_witness:
  "store_key_only (indexes (exec (Some 1) (Set_key 100 ''s'' ''k'' (Some 5) (Some 60))
                              (initial :: nat collection)))
   \<and> get_key (exec (Some 1) (Set_key 100 ''s'' ''k'' (Some 5) (Some 60))
                (initial :: nat collection)) (Some 1) ''s'' ''k''
      = Some \<lparr>ident = Some 0, store_name = ''s'', key = ''k'', val = Some 5,
               created_at = Some 100, updated_at = Some 100, expires_at = Some 160,
               dataset_id = Some 1\<rparr>
   \<and> (\<exists>c' r. set_key (exec (Some 1) (Set_key 100 ''s'' ''k'' (Some 5) (Some 60))
                         (initial :: nat collection))
                 (Some 1) 200 ''s'' ''k'' (Some 6) None = Inr (c', r) \<and>
           get_key c' (Some 1) ''s'' ''k''
             = Some \<lparr>ident = Some 0, store_name = ''s'', key = ''k'', val = Some 6,
                      created_at = Some 100, updated_at = Some 200, expires_at = Some 160,
                      dataset_id = Some 1\<rparr>)"
proof -
  let ?c = "exec (Some 1) (Set_key 100 ''s'' ''k'' (Some 5) (Some 60)) (initial :: nat collection)"
  let ?e = "\<lparr>ident = Some 0, store_name = ''s'', key = ''k'', val = Some (5::nat),
             created_at = Some 100, updated_at = Some 100, expires_at = Some 160,
             dataset_id = Some 1\<rparr>"
  have 1: "store_key_only (indexes ?c)"
    by (simp add: run_defs store_key_only_def)
  have 2: "get_key ?c (Some 1) ''s'' ''k'' = Some ?e"
    by (simp add: run_defs)
  from set_key_existing_entry[OF 1 2, of 200 "Some 6" None] 1 2 show ?thesis
    by simp
qed

text \<open>
  C2 as stated fails. An entry written at time 100 without ttl and written again at time
  200 with a ttl of 60 has no expiration afterwards, although \<open>now + ttl\<close> is 260; an
  entry written at time 100 with a ttl of 60 and written again at time 200 without ttl
  still expires at 160. In both runs the second call did update the value and
  \<open>updated_at\<close>.
\<close>

theorem set_key_ttl_counterexample:
  "map_option val
     (get_key (exec (Some 1) (Set_key 200 ''s'' ''k'' (Some 6) (Some 60))
                (exec (Some 1) (Set_key 100 ''s'' ''k'' (Some 5) None)
                   (initial :: nat collection)))
        (Some 1) ''s'' ''k'') = Some (Some 6)
   \<and> map_option updated_at
     (get_key (exec (Some 1) (Set_key 200 ''s'' ''k'' (Some 6) (Some 60))
                (exec (Some 1) (Set_key 100 ''s'' ''k'' (Some 5) None)
                   (initial :: nat collection)))
        (Some 1) ''s'' ''k'') = Some (Some 200)
   \<and> map_option expires_at
     (get_key (exec (Some 1) (Set_key 200 ''s'' ''k'' (Some 6) (Some 60))
                (exec (Some 1) (Set_key 100 ''s'' ''k'' (Some 5) None)
                   (initial :: nat collection)))
        (Some 1) ''s'' ''k'') = Some None
   \<and> get_expiration 200 (Some 60) = Some 260
   \<and> map_option val
     (get_key (exec (Some 1) (Set_key 200 ''s'' ''k'' (Some 6) None)
                (exec (Some 1) (Set_key 100 ''s'' ''k'' (Some 5) (Some 60))
                   (initial :: nat collection)))
        (Some 1) ''s'' ''k'') = Some (Some 6)
   \<and> map_option expires_at
     (get_key (exec (Some 1) (Set_key 200 ''s'' ''k'' (Some 6) None)
                (exec (Some 1) (Set_key 100 ''s'' ''k'' (Some 5) (Some 60))
                   (initial :: nat collection)))
        (Some 1) ''s'' ''k'') = Some (Some 160)"
  by (simp add: run_defs)

subsection \<open>Creating a store that exists\<close>

text \<open>
  C3, as the code has it. \<^verbatim>\<open>create_store\<close> makes no lookup of its own, but its insert
  is subject to the unique index on store name, key and context that the repository
  creates. In every collection a run can reach: where a marker for the name exists in
  the context, \<^verbatim>\<open>create_store\<close> raises a duplicate-key error; where none exists, it
  succeeds, returns the marker it created, and the context has one more store.
\<close>

theorem create_store_existing:
  assumes "reachable c"
  shows "(has_store c ds s \<longrightarrow> create_store c ds s = Inl DuplicateKeyError) \<and>
         (\<not> has_store c ds s \<longrightarrow>
            (\<exists>c'. create_store c ds s = Inr (c', StoreDocument s ds) \<and> has_store c' ds s \<and>
                  count_stores c' ds = Suc (count_stores c ds)))"
proof -
  from assms have "repo_inv c" unfolding reachable_def by (rule reachable_by_inv)
  then have ix: "store_key_only (indexes c)" "has_store_index (indexes c)"
    by (simp_all add: repo_inv_indexes)
  show ?thesis
    by (simp add: create_store_cases[OF ix] has_store_iff count_stores_def count_documents_def
        matches_def triple_def StoreDocument_def)
qed

theorem create_store_existing_witness:
  "reachable (exec (Some 1) (Create_store ''A'') (initial :: nat collection))
   \<and> has_store (exec (Some 1) (Create_store ''A'') (initial :: nat collection)) (Some 1) ''A''
   \<and> create_store (exec (Some 1) (Create_store ''A'') (initial :: nat collection)) (Some 1) ''A''
       = Inl DuplicateKeyError
   \<and> \<not> has_store (exec (Some 1) (Create_store ''A'') (initial :: nat collection)) (Some 2) ''A''
   \<and> (\<exists>c'. create_store (exec (Some 1) (Create_store ''A'') (initial :: nat collection))
               (Some 2) ''A'' = Inr (c', StoreDocument ''A'' (Some 2))
            \<and> has_store c' (Some 2) ''A''
            \<and> count_stores c' (Some 2)
                = Suc (count_stores (exec (Some 1) (Create_store ''A'')
                                       (initial :: nat collection)) (Some 2)))"
proof -
  let ?c = "exec (Some 1) (Create_store ''A'') (initial :: nat collection)"
  have "reachable_by (\<lambda>op. True) (initial :: nat collection)"
    by (rule reachable_by.fresh[OF initial_eq])
  then have "reachable_by (\<lambda>op. True) ?c" by (rule reachable_by.step) simp
  then have r: "reachable ?c" by (simp add: reachable_def)
  have 1: "has_store ?c (Some 1) ''A''"
    by (simp add: run_defs create_store_def insert_one_def has_store_def StoreDocument_def)
  have 2: "\<not> has_store ?c (Some 2) ''A''"
    by (simp add: run_defs create_store_def insert_one_def has_store_def StoreDocument_def)
  from create_store_existing[OF r, of "Some 1" "''A''"] create_store_existing[OF r, of "Some 2" "''A''"]
    r 1 2 show ?thesis by simp
qed

text \<open>
  C3 as stated fails. After one \<^verbatim>\<open>create_store\<close> of the store A in a context, the
  marker exists there, and a second \<^verbatim>\<open>create_store\<close> of A in the same context raises
  instead of succeeding.
\<close>

theorem create_store_twice_counterexample:
  "has_store (exec (Some 1) (Create_store ''A'') (initial :: nat collection)) (Some 1) ''A'' \<and>
   create_store (exec (Some 1) (Create_store ''A'') (initial :: nat collection)) (Some 1) ''A''
     = Inl DuplicateKeyError"
  by (simp add: run_defs create_store_def insert_one_def has_store_def StoreDocument_def)

subsection \<open>Uniqueness of records\<close>

text \<open>
  C4. In every collection a run can reach, no two records share store name, key and
  context: counting the records of any one triple gives at most one. A run is any
  sequence of calls by repositories bound to any contexts, each call taken as one atomic
  step, so calls of \<^verbatim>\<open>set_key\<close> on one triple, repeated or interleaved with other
  calls, are covered.
\<close>

theorem reachable_unique:
  assumes "reachable c"
  shows "unique_triples c \<and>
    (\<forall>s k ds. count_documents c [Eq_store_name s, Eq_key k, Eq_dataset_id ds] \<le> 1)"
proof -
  from assms have "repo_inv c" unfolding reachable_def by (rule reachable_by_inv)
  then have u: "distinct (map triple (docs c))" by (simp add: repo_inv_def unique_triples_def)
  have "count_documents c [Eq_store_name s, Eq_key k, Eq_dataset_id ds] \<le> 1" for s k ds
    using length_filter_distinct_map[OF u, of "(s, k, ds)"]
    by (simp add: count_documents_def matches_key[abs_def])
  with u show ?thesis by (simp add: unique_triples_def)
qed

theorem reachable_unique_witness:
  "reachable (exec (Some 1) (Set_key 200 ''s'' ''k'' (Some 6) None)
                (exec (Some 1) (Set_key 100 ''s'' ''k'' (Some 5) None) (initial :: nat collection)))
   \<and> unique_triples (exec (Some 1) (Set_key 200 ''s'' ''k'' (Some 6) None)
                (exec (Some 1) (Set_key 100 ''s'' ''k'' (Some 5) None) (initial :: nat collection)))
   \<and> count_documents (exec (Some 1) (Set_key 200 ''s'' ''k'' (Some 6) None)
                (exec (Some 1) (Set_key 100 ''s'' ''k'' (Some 5) None) (initial :: nat collection)))
        [Eq_store_name ''s'', Eq_key ''k'', Eq_dataset_id (Some 1)] = 1"
proof -
  let ?c1 = "exec (Some 1) (Set_key 100 ''s'' ''k'' (Some 5) None) (initial :: nat collection)"
  let ?c2 = "exec (Some 1) (Set_key 200 ''s'' ''k'' (Some 6) None) ?c1"
  have "reachable_by (\<lambda>op. True) (initial :: nat collection)"
    by (rule reachable_by.fresh[OF initial_eq])
  then have "reachable_by (\<lambda>op. True) ?c1" by (rule reachable_by.step) simp
  then have "reachable_by (\<lambda>op. True) ?c2" by (rule reachable_by.step) simp
  then have r: "reachable ?c2" by (simp add: reachable_def)
  have "count_documents ?c2 [Eq_store_name ''s'', Eq_key ''k'', Eq_dataset_id (Some 1)] = 1"
    by (simp add: run_defs count_documents_def)
  with reachable_unique[OF r] r show ?thesis by simp
qed

subsection \<open>The reserved marker key\<close>

lemma markers_plain_subset:
  "markers_plain c \<Longrightarrow> set (docs c') \<subseteq> set (docs c) \<Longrightarrow> markers_plain c'"
  by (auto simp: markers_plain_def list_all_iff)

lemma markers_plain_update:
  assumes "markers_plain c" and "key y = ''__store__'' \<longrightarrow> val y = None"
  shows "markers_plain (c\<lparr>docs := update_first P (\<lambda>_. y) (docs c)\<rparr>)"
  using assms set_update_first[of P y "docs c"]
  by (auto simp: markers_plain_def list_all_iff)

lemma markers_create_store:
  assumes "repo_inv c" and "markers_plain c"
  shows "markers_plain (after c (create_store c ds s))"
proof -
  from assms(1) have ix: "store_key_only (indexes c)" "has_store_index (indexes c)"
    by (simp_all add: repo_inv_indexes)
  from assms(2) show ?thesis
    by (simp add: create_store_cases[OF ix] after_def markers_plain_def StoreDocument_def)
qed

lemma markers_set_key:
  assumes "repo_inv c" and "markers_plain c" and "k \<noteq> ''__store__''"
  shows "markers_plain (after c (set_key c ds now s k v ttl))"
proof -
  from assms(1) have ix: "store_key_only (indexes c)" by (simp add: repo_inv_indexes)
  show ?thesis
  proof (cases "find (matches [Eq_store_name s, Eq_key k, Eq_dataset_id ds]) (docs c)")
    case None
    with assms(2,3) set_key_new[OF None ix, of now v ttl] show ?thesis
      by (auto simp: after_def markers_plain_def)
  next
    case (Some d)
    from find_Some_set[OF Some] have "key d = k" by (simp add: matches_key triple_def)
    with assms(3) have "key (d\<lparr>val := v, updated_at := Some now\<rparr>) = ''__store__'' \<longrightarrow>
        val (d\<lparr>val := v, updated_at := Some now\<rparr>) = None" by simp
    from markers_plain_update[OF assms(2) this] set_key_existing[OF Some ix, of now v ttl]
    show ?thesis by (auto simp: after_def)
  qed
qed

lemma markers_update_ttl:
  assumes "repo_inv c" and "markers_plain c"
  shows "markers_plain (after c (update_ttl c ds now s k ttl))"
proof -
  from assms(1) have ix: "store_key_only (indexes c)" by (simp add: repo_inv_indexes)
  show ?thesis
  proof (cases "find (matches [Eq_store_name s, Eq_key k, Eq_dataset_id ds]) (docs c)")
    case None
    with assms(2) show ?thesis by (simp add: update_ttl_cases[OF ix] after_def)
  next
    case (Some d)
    from find_Some_set[OF Some] assms(2)
    have "key (d\<lparr>expires_at := get_expiration now ttl\<rparr>) = ''__store__'' \<longrightarrow>
        val (d\<lparr>expires_at := get_expiration now ttl\<rparr>) = None"
      by (auto simp: markers_plain_def list_all_iff)
    from markers_plain_update[OF assms(2) this] Some show ?thesis
      by (simp add: update_ttl_cases[OF ix] after_def)
  qed
qed

lemma markers_exec:
  assumes "repo_inv c" and "markers_plain c" and "\<not> sets_marker_key op"
  shows "markers_plain (exec ds op c)"
proof (cases op)
  case (Create_store s)
  with assms show ?thesis by (simp add: markers_create_store)
next
  case (Delete_store s)
  with assms(2) show ?thesis
    by (auto simp: delete_store_def delete_many_def elim: markers_plain_subset)
next
  case (Set_key now s k v ttl)
  with assms show ?thesis by (simp add: markers_set_key)
next
  case (Update_ttl now s k ttl)
  with assms show ?thesis by (simp add: markers_update_ttl)
next
  case (Delete_key s k)
  have "set (docs (fst (delete_key c ds s k))) \<subseteq> set (docs c)"
    by (simp add: delete_key_def delete_one_def set_remove_first)
  with assms(2) Delete_key show ?thesis
    by (auto elim: markers_plain_subset)
next
  case Cleanup
  with assms(2) show ?thesis
    by (auto simp: cleanup_def delete_many_def elim: markers_plain_subset)
next
  case New_repo
  with assms(1,2) create_indexes_idem[of c] show ?thesis
    by (simp add: MongoExecutionStoreRepo_def repo_inv_def)
next
  case (Ttl_sweep now)
  with assms(2) show ?thesis
    by (auto simp: ttl_sweep_def elim: markers_plain_subset)
qed

text \<open>
  C5, as the code has it. \<^verbatim>\<open>set_key\<close> does not look at its key argument, so the
  invariant holds only for callers that keep to it: in every collection reached by a run
  in which no call of \<^verbatim>\<open>set_key\<close> is given the reserved marker key, every record
  under the marker key carries no value.
\<close>

theorem markers_carry_no_value:
  assumes "reachable_by (\<lambda>op. \<not> sets_marker_key op) c"
  shows "\<forall>d\<in>set (docs c). key d = ''__store__'' \<longrightarrow> val d = None"
proof -
  from assms have "markers_plain c"
  proof (induction rule: reachable_by.induct)
    case (fresh ds c)
    then show ?case by (simp add: initial_eq markers_plain_def docs_initial)
  next
    case (step c op ds)
    from step.hyps(1) have "repo_inv c" by (rule reachable_by_inv)
    with step show ?case by (simp add: markers_exec)
  qed
  then show ?thesis by (simp add: markers_plain_def list_all_iff)
qed

theorem markers_carry_no_value_witness:
  "reachable_by (\<lambda>op. \<not> sets_marker_key op)
     (exec (Some 1) (Set_key 100 ''s'' ''k'' (Some 5) None)
        (exec (Some 1) (Create_store ''s'') (initial :: nat collection)))
   \<and> map key (docs (exec (Some 1) (Set_key 100 ''s'' ''k'' (Some 5) None)
                       (exec (Some 1) (Create_store ''s'') (initial :: nat collection))))
       = [''__store__'', ''k'']
   \<and> val (hd (docs (exec (Some 1) (Set_key 100 ''s'' ''k'' (Some 5) None)
                       (exec (Some 1) (Create_store ''s'') (initial :: nat collection)))))
       = None"
proof -
  let ?c1 = "exec (Some 1) (Create_store ''s'') (initial :: nat collection)"
  let ?c2 = "exec (Some 1) (Set_key 100 ''s'' ''k'' (Some 5) None) ?c1"
  have "reachable_by (\<lambda>op. \<not> sets_marker_key op) (initial :: nat collection)"
    by (rule reachable_by.fresh[OF initial_eq])
  then have "reachable_by (\<lambda>op. \<not> sets_marker_key op) ?c1" by (rule reachable_by.step) simp
  then have r: "reachable_by (\<lambda>op. \<not> sets_marker_key op) ?c2" by (rule reachable_by.step) simp
  have k: "map key (docs ?c2) = [''__store__'', ''k'']"
    by (simp add: run_defs create_store_def insert_one_def StoreDocument_def)
  then have "hd (docs ?c2) \<in> set (docs ?c2)" and "key (hd (docs ?c2)) = ''__store__''"
    by (auto simp: map_eq_Cons_conv)
  with markers_carry_no_value[OF r] have "val (hd (docs ?c2)) = None" by blast
  with r k show ?thesis by blast
qed

text \<open>
  C5 as stated fails. A call of \<^verbatim>\<open>set_key\<close> with the marker key as its key creates a
  record under the marker key that holds the caller's value, and the same call after
  \<^verbatim>\<open>create_store\<close> overwrites the store's marker with the caller's value.
\<close>

theorem set_key_marker_counterexample:
  "reachable (exec (Some 1) (Set_key 100 ''s'' ''__store__'' (Some 7) None)
                (initial :: nat collection))
   \<and> map key (docs (exec (Some 1) (Set_key 100 ''s'' ''__store__'' (Some 7) None)
                       (initial :: nat collection))) = [''__store__'']
   \<and> map val (docs (exec (Some 1) (Set_key 100 ''s'' ''__store__'' (Some 7) None)
                       (initial :: nat collection))) = [Some 7]
   \<and> map key (docs (exec (Some 1) (Create_store ''s'') (initial :: nat collection)))
       = [''__store__'']
   \<and> map val (docs (exec (Some 1) (Create_store ''s'') (initial :: nat collection)))
       = [None]
   \<and> map key (docs (exec (Some 1) (Set_key 100 ''s'' ''__store__'' (Some 7) None)
                       (exec (Some 1) (Create_store ''s'') (initial :: nat collection))))
       = [''__store__'']
   \<and> map val (docs (exec (Some 1) (Set_key 100 ''s'' ''__store__'' (Some 7) None)
                       (exec (Some 1) (Create_store ''s'') (initial :: nat collection))))
       = [Some 7]"
proof -
  have "reachable_by (\<lambda>op. True) (initial :: nat collection)"
    by (rule reachable_by.fresh[OF initial_eq])
  then have "reachable_by (\<lambda>op. True)
      (exec (Some 1) (Set_key 100 ''s'' ''__store__'' (Some 7) None) (initial :: nat collection))"
    by (rule reachable_by.step) simp
  then show ?thesis
    by (simp add: reachable_def run_defs create_store_def insert_one_def StoreDocument_def)
qed

subsection \<open>Cleaning up a context\<close>

text \<open>
  C6. For distinct contexts C and D, \<^verbatim>\<open>cleanup\<close> bound to C leaves no record of C,
  returns the number of records of C there were, and leaves the records of D as they
  were, so that \<^verbatim>\<open>count_stores\<close> and \<^verbatim>\<open>count_keys\<close> in D are the same before and
  after while they are zero in C. The call cannot raise; where C has no record it returns
  zero and the collection is unchanged.
\<close>

theorem cleanup_frame:
  assumes "C \<noteq> D"
  shows "filter (\<lambda>d. dataset_id d = C) (docs (fst (cleanup c C))) = [] \<and>
         snd (cleanup c C) = length (filter (\<lambda>d. dataset_id d = C) (docs c)) \<and>
         filter (\<lambda>d. dataset_id d = D) (docs (fst (cleanup c C)))
           = filter (\<lambda>d. dataset_id d = D) (docs c) \<and>
         count_stores (fst (cleanup c C)) C = 0 \<and>
         count_keys (fst (cleanup c C)) C s = 0 \<and>
         count_stores (fst (cleanup c C)) D = count_stores c D \<and>
         count_keys (fst (cleanup c C)) D s = count_keys c D s \<and>
         ((\<forall>d\<in>set (docs c). dataset_id d \<noteq> C) \<longrightarrow> cleanup c C = (c, 0))"
proof -
  have d: "docs (fst (cleanup c C)) = filter (\<lambda>d. dataset_id d \<noteq> C) (docs c)"
    by (simp add: cleanup_def delete_many_def matches_fun)
  have n: "snd (cleanup c C) = length (filter (\<lambda>d. dataset_id d = C) (docs c))"
    by (simp add: cleanup_def delete_many_def matches_fun)
  have 1: "filter (\<lambda>d. dataset_id d = C) (docs (fst (cleanup c C))) = []"
    by (simp add: d filter_empty_conv)
  have 2: "filter (\<lambda>d. P d \<and> dataset_id d = D) (docs (fst (cleanup c C)))
           = filter (\<lambda>d. P d \<and> dataset_id d = D) (docs c)" for P
    using assms unfolding d filter_filter by (intro filter_cong) auto
  have 3: "filter (\<lambda>d. P d \<and> dataset_id d = C) (docs (fst (cleanup c C))) = []" for P
    by (simp add: d filter_empty_conv)
  have 4: "(\<forall>d\<in>set (docs c). dataset_id d \<noteq> C) \<longrightarrow> cleanup c C = (c, 0)"
    by (auto simp: cleanup_def delete_many_def matches_fun filter_empty_conv filter_id_conv)
  have 5: "filter (\<lambda>d. dataset_id d = D) (docs (fst (cleanup c C)))
           = filter (\<lambda>d. dataset_id d = D) (docs c)"
    using 2[of "\<lambda>d. True"] by simp
  show ?thesis
    using 2[of "\<lambda>d. key d = ''__store__''"] 3[of "\<lambda>d. key d = ''__store__''"]
      2[of "\<lambda>d. store_name d = s \<and> key d \<noteq> ''__store__''"]
      3[of "\<lambda>d. store_name d = s \<and> key d \<noteq> ''__store__''"] 1 n 4 5
    by (simp add: count_stores_def count_keys_def count_documents_def matches_fun conj_assoc)
qed

theorem cleanup_frame_witness:
  "(Some 1 :: oid option) \<noteq> None
   \<and> snd (cleanup (exec None (Set_key 100 ''t'' ''j'' (Some 9) None)
                    (exec (Some 1) (Set_key 100 ''s'' ''k'' (Some 5) None)
                       (exec (Some 1) (Create_store ''s'') (initial :: nat collection))))
            (Some 1)) = 2
   \<and> count_stores (fst (cleanup (exec None (Set_key 100 ''t'' ''j'' (Some 9) None)
                    (exec (Some 1) (Set_key 100 ''s'' ''k'' (Some 5) None)
                       (exec (Some 1) (Create_store ''s'') (initial :: nat collection))))
            (Some 1))) (Some 1) = 0
   \<and> count_keys (fst (cleanup (exec None (Set_key 100 ''t'' ''j'' (Some 9) None)
                    (exec (Some 1) (Set_key 100 ''s'' ''k'' (Some 5) None)
                       (exec (Some 1) (Create_store ''s'') (initial :: nat collection))))
            (Some 1))) None ''t'' = 1"
proof -
  let ?c = "exec None (Set_key 100 ''t'' ''j'' (Some 9) None)
              (exec (Some 1) (Set_key 100 ''s'' ''k'' (Some 5) None)
                 (exec (Some 1) (Create_store ''s'') (initial :: nat collection)))"
  have d: "docs ?c =
     [\<lparr>ident = Some 0, store_name = ''s'', key = ''__store__'', val = None, created_at = None,
       updated_at = None, expires_at = None, dataset_id = Some 1\<rparr>,
      \<lparr>ident = Some 1, store_name = ''s'', key = ''k'', val = Some 5, created_at = Some 100,
       updated_at = Some 100, expires_at = None, dataset_id = Some 1\<rparr>,
      \<lparr>ident = Some 2, store_name = ''t'', key = ''j'', val = Some 9, created_at = Some 100,
       updated_at = Some 100, expires_at = None, dataset_id = None\<rparr>]"
    by (simp add: run_defs create_store_def insert_one_def StoreDocument_def)
  have 1: "length (filter (\<lambda>d. dataset_id d = Some 1) (docs ?c)) = 2"
    unfolding d by simp
  have 2: "count_keys ?c None ''t'' = 1"
    unfolding count_keys_def count_documents_def d by (simp add: matches_fun)
  have 3: "(Some 1 :: oid option) \<noteq> None" by simp
  from cleanup_frame[OF 3, of ?c "''t''"] 1 2 show ?thesis
    by simp
qed

subsection \<open>Updating the expiration\<close>

text \<open>
  C7. \<^verbatim>\<open>update_ttl\<close> on a key that has no entry in the bound context returns false and
  leaves the collection as it was. On an existing entry it succeeds, the entry read back
  afterwards differs from the one before in \<open>expires_at\<close> only (value, \<open>created_at\<close>
  and \<open>updated_at\<close> are the same), every other record is unchanged, and the result is
  true exactly when the new expiration differs from the stored one. The hypothesis says
  that the collection's unique indexes, if any, are on store name, key and context.
\<close>

theorem update_ttl_effect:
  assumes "store_key_only (indexes c)"
  shows "case get_key c ds s k of
           None \<Rightarrow> update_ttl c ds now s k ttl = Inr (c, False)
         | Some e \<Rightarrow>
             (\<exists>c'. update_ttl c ds now s k ttl = Inr (c', expires_at e \<noteq> get_expiration now ttl)
                \<and> get_key c' ds s k = Some (e\<lparr>expires_at := get_expiration now ttl\<rparr>)
                \<and> filter (\<lambda>d. triple d \<noteq> (s, k, ds)) (docs c')
                    = filter (\<lambda>d. triple d \<noteq> (s, k, ds)) (docs c)
                \<and> length (docs c') = length (docs c))"
proof (cases "find (matches [Eq_store_name s, Eq_key k, Eq_dataset_id ds]) (docs c)")
  case None
  then show ?thesis
    by (simp add: update_ttl_cases[OF assms] get_key_def find_one_def)
next
  case (Some e)
  let ?P = "matches [Eq_store_name s, Eq_key k, Eq_dataset_id ds]"
  let ?e' = "e\<lparr>expires_at := get_expiration now ttl\<rparr>"
  from find_Some_set[OF Some] have t: "triple e = (s, k, ds)" by (simp add: matches_key)
  then have m: "?P ?e'" by (simp add: matches_key triple_def)
  have "filter (\<lambda>d. triple d \<noteq> (s, k, ds)) (update_first ?P (\<lambda>_. ?e') (docs c))
          = filter (\<lambda>d. triple d \<noteq> (s, k, ds)) (docs c)"
    using t by (intro filter_update_first) (simp_all add: matches_key triple_def)
  with Some find_update_first[OF Some m] show ?thesis
    by (simp add: update_ttl_cases[OF assms] get_key_def find_one_def length_update_first)
qed

theorem update_ttl_effect_witness:
  "store_key_only (indexes (exec (Some 1) (Set_key 100 ''A'' ''k1'' (Some 1) None)
                              (initial :: nat collection)))
   \<and> (\<exists>c'. update_ttl (exec (Some 1) (Set_key 100 ''A'' ''k1'' (Some 1) None)
                          (initial :: nat collection)) (Some 1) 150 ''A'' ''k1'' (Some 60)
              = Inr (c', True)
          \<and> get_key c' (Some 1) ''A'' ''k1''
              = Some \<lparr>ident = Some 0, store_name = ''A'', key = ''k1'', val = Some 1,
                       created_at = Some 100, updated_at = Some 100, expires_at = Some 210,
                       dataset_id = Some 1\<rparr>)
   \<and> update_ttl (exec (Some 1) (Set_key 100 ''A'' ''k1'' (Some 1) None)
                   (initial :: nat collection)) (Some 1) 150 ''A'' ''k2'' (Some 60)
       = Inr (exec (Some 1) (Set_key 100 ''A'' ''k1'' (Some 1) None)
                (initial :: nat collection), False)"
proof -
  let ?c = "exec (Some 1) (Set_key 100 ''A'' ''k1'' (Some 1) None) (initial :: nat collection)"
  let ?e = "\<lparr>ident = Some 0, store_name = ''A'', key = ''k1'', val = Some (1::nat),
             created_at = Some 100, updated_at = Some 100, expires_at = None,
             dataset_id = Some 1\<rparr>"
  have ix: "store_key_only (indexes ?c)"
    by (simp add: run_defs store_key_only_def)
  have 1: "get_key ?c (Some 1) ''A'' ''k1'' = Some ?e"
    by (simp add: run_defs)
  have 2: "get_key ?c (Some 1) ''A'' ''k2'' = None"
    by (simp add: run_defs)
  have 3: "get_expiration 150 (Some 60) = Some 210"
    by (simp add: get_expiration_def)
  from update_ttl_effect[OF ix, where ds = "Some 1" and s = "''A''" and k = "''k1''"
      and now = 150 and ttl = "Some 60"]
  have a: "\<exists>c'. update_ttl ?c (Some 1) 150 ''A'' ''k1'' (Some 60) = Inr (c', True)
          \<and> get_key c' (Some 1) ''A'' ''k1'' = Some (?e\<lparr>expires_at := Some 210\<rparr>)"
    unfolding 1 3 by auto
  from update_ttl_effect[OF ix, where ds = "Some 1" and s = "''A''" and k = "''k2''"
      and now = 150 and ttl = "Some 60"]
  have b: "update_ttl ?c (Some 1) 150 ''A'' ''k2'' (Some 60) = Inr (?c, False)"
    unfolding 2 by simp
  from ix a b show ?thesis by simp
qed

subsection \<open>Listing and counting keys\<close>

lemma distinct_map_key_filter:
  assumes "distinct (map triple xs)"
  shows "distinct (map key (filter (\<lambda>d. store_name d = s \<and> P d \<and> dataset_id d = ds) xs))"
proof -
  have "inj_on key {d \<in> set xs. store_name d = s \<and> P d \<and> dataset_id d = ds}"
    using assms by (auto simp: inj_on_def distinct_map triple_def)
  moreover have "distinct xs" using assms by (simp add: distinct_map)
  ultimately show ?thesis by (simp add: distinct_map)
qed

text \<open>
  C8. In every collection a run can reach, \<^verbatim>\<open>list_keys\<close> returns exactly the keys of
  the records of that store and context whose key is not the marker key, the marker key
  is never among them, no key is listed twice, and \<^verbatim>\<open>count_keys\<close> is the number of
  the keys listed.
\<close>

theorem list_keys_count_keys:
  assumes "reachable c"
  shows "set (list_keys c ds s) =
           {key d | d. d \<in> set (docs c) \<and> store_name d = s \<and> dataset_id d = ds
                        \<and> key d \<noteq> ''__store__''}
         \<and> ''__store__'' \<notin> set (list_keys c ds s)
         \<and> distinct (list_keys c ds s)
         \<and> count_keys c ds s = card (set (list_keys c ds s))"
proof -
  from assms have "repo_inv c" unfolding reachable_def by (rule reachable_by_inv)
  then have u: "distinct (map triple (docs c))" by (simp add: repo_inv_def unique_triples_def)
  have l: "list_keys c ds s =
      map key (filter (\<lambda>d. store_name d = s \<and> key d \<noteq> ''__store__'' \<and> dataset_id d = ds) (docs c))"
    by (simp add: list_keys_def find_docs_def matches_fun)
  have n: "count_keys c ds s = length (list_keys c ds s)"
    by (simp add: l count_keys_def count_documents_def matches_fun)
  have d: "distinct (list_keys c ds s)"
    unfolding l using u by (rule distinct_map_key_filter)
  have e: "set (list_keys c ds s) =
           {key d | d. d \<in> set (docs c) \<and> store_name d = s \<and> dataset_id d = ds
                        \<and> key d \<noteq> ''__store__''}"
    unfolding l by auto
  have m: "''__store__'' \<notin> set (list_keys c ds s)"
    unfolding l by auto
  have "count_keys c ds s = card (set (list_keys c ds s))"
    using n distinct_card[OF d] by simp
  with e m d show ?thesis by blast
qed

theorem list_keys_count_keys_witness:
  "reachable (exec (Some 1) (Set_key 100 ''s'' ''k'' (Some 5) None)
                (exec (Some 1) (Create_store ''s'') (initial :: nat collection)))
   \<and> list_keys (exec (Some 1) (Set_key 100 ''s'' ''k'' (Some 5) None)
                  (exec (Some 1) (Create_store ''s'') (initial :: nat collection)))
        (Some 1) ''s'' = [''k'']
   \<and> count_keys (exec (Some 1) (Set_key 100 ''s'' ''k'' (Some 5) None)
                   (exec (Some 1) (Create_store ''s'') (initial :: nat collection)))
        (Some 1) ''s''
      = card (set (list_keys (exec (Some 1) (Set_key 100 ''s'' ''k'' (Some 5) None)
                                (exec (Some 1) (Create_store ''s'') (initial :: nat collection)))
                     (Some 1) ''s''))"
proof -
  let ?c1 = "exec (Some 1) (Create_store ''s'') (initial :: nat collection)"
  let ?c2 = "exec (Some 1) (Set_key 100 ''s'' ''k'' (Some 5) None) ?c1"
  have "reachable_by (\<lambda>op. True) (initial :: nat collection)"
    by (rule reachable_by.fresh[OF initial_eq])
  then have "reachable_by (\<lambda>op. True) ?c1" by (rule reachable_by.step) simp
  then have "reachable_by (\<lambda>op. True) ?c2" by (rule reachable_by.step) simp
  then have r: "reachable ?c2" by (simp add: reachable_def)
  have l: "list_keys ?c2 (Some 1) ''s'' = [''k'']"
    by (simp add: run_defs create_store_def insert_one_def StoreDocument_def list_keys_def
        find_docs_def)
  from list_keys_count_keys[OF r, where ds = "Some 1" and s = "''s''"] r l show ?thesis by blast
qed

subsection \<open>Stores and contexts\<close>

text \<open>
  C9. For distinct contexts \<open>ds1\<close> and \<open>ds2\<close>: \<^verbatim>\<open>create_store\<close> of a store in
  \<open>ds1\<close> succeeds where the store does not exist there yet, and after a successful
  call \<^verbatim>\<open>has_store\<close> is true in \<open>ds1\<close>, is in \<open>ds2\<close> what it was before (so false
  where \<open>ds2\<close> had no such store, as in the scenario), and \<^verbatim>\<open>has_store_global\<close> is
  true whatever context the repository is bound to.
\<close>

theorem create_store_scoping:
  assumes "ds1 \<noteq> ds2"
  shows "(store_key_only (indexes c) \<and> \<not> has_store c ds1 s
            \<longrightarrow> (\<exists>c'. create_store c ds1 s = Inr (c', StoreDocument s ds1)))
       \<and> (\<forall>c' m. create_store c ds1 s = Inr (c', m) \<longrightarrow>
             has_store c' ds1 s
           \<and> (has_store c' ds2 s \<longleftrightarrow> has_store c ds2 s)
           \<and> (\<not> has_store c ds2 s \<longrightarrow> \<not> has_store c' ds2 s)
           \<and> (\<forall>ds. has_store_global c' ds s))"
proof -
  let ?d = "(StoreDocument s ds1 :: 'a KeyDocument)\<lparr>ident := Some (next_id c)\<rparr>"
  have "\<exists>c'. create_store c ds1 s = Inr (c', StoreDocument s ds1)"
    if ix: "store_key_only (indexes c)" and h: "\<not> has_store c ds1 s"
  proof -
    have "triple ?d \<notin> triple ` set (docs c)"
      using h by (simp add: has_store_iff triple_def StoreDocument_def)
    with duplicate_key_triple[OF ix] have "\<not> duplicate_key (indexes c) ?d (docs c)"
      by blast
    moreover have "assign_all (to_mongo_dict (StoreDocument s ds1)) blank\<lparr>ident := Some (next_id c)\<rparr> = ?d"
      by (simp add: assign_all_def to_mongo_dict_def StoreDocument_def blank_def)
    ultimately show ?thesis
      by (simp add: create_store_def insert_one_def bind_def Let_def)
  qed
  moreover have "has_store c' ds1 s \<and> (has_store c' ds2 s \<longleftrightarrow> has_store c ds2 s)
           \<and> (\<not> has_store c ds2 s \<longrightarrow> \<not> has_store c' ds2 s)
           \<and> (\<forall>ds. has_store_global c' ds s)"
    if "create_store c ds1 s = Inr (c', m)" for c' m
    using create_store_result[OF that] assms
    by (auto simp: has_store_iff2 has_store_global_iff StoreDocument_def)
  ultimately show ?thesis by blast
qed

theorem create_store_scoping_witness:
  "(Some 1 :: oid option) \<noteq> Some 2
   \<and> store_key_only (indexes (initial :: nat collection))
   \<and> \<not> has_store (initial :: nat collection) (Some 1) ''A''
   \<and> (\<exists>c'. create_store (initial :: nat collection) (Some 1) ''A''
              = Inr (c', StoreDocument ''A'' (Some 1))
          \<and> has_store c' (Some 1) ''A'' \<and> \<not> has_store c' (Some 2) ''A''
          \<and> has_store_global c' (Some 2) ''A'' \<and> has_store_global c' None ''A'')"
proof -
  have 1: "(Some 1 :: oid option) \<noteq> Some 2" by simp
  have 2: "\<not> has_store (initial :: nat collection) ds ''A''" for ds
    by (simp add: has_store_iff docs_initial)
  from create_store_scoping[OF 1, where c = "initial :: nat collection" and s = "''A''"] 1 2
    store_key_only_initial
  show ?thesis by blast
qed

subsection \<open>Deleting the marker\<close>

text \<open>
  C10. In every collection a run can reach, for a store that exists in the bound
  context, \<^verbatim>\<open>delete_key\<close> with the marker key returns true and removes one record,
  the marker: afterwards \<^verbatim>\<open>has_store\<close> is false, while the records under other keys,
  and with them \<^verbatim>\<open>list_keys\<close> and \<^verbatim>\<open>count_keys\<close> of the store, are unchanged.
\<close>

theorem delete_key_marker:
  assumes "reachable c" and "has_store c ds s"
  shows "\<exists>c'. delete_key c ds s ''__store__'' = (c', True) \<and> \<not> has_store c' ds s
           \<and> list_keys c' ds s = list_keys c ds s
           \<and> count_keys c' ds s = count_keys c ds s
           \<and> filter (\<lambda>d. key d \<noteq> ''__store__'') (docs c')
               = filter (\<lambda>d. key d \<noteq> ''__store__'') (docs c)
           \<and> Suc (length (docs c')) = length (docs c)"
proof -
  let ?t = "(s, ''__store__'', ds)"
  let ?c' = "c\<lparr>docs := remove_first (\<lambda>d. triple d = ?t) (docs c)\<rparr>"
  from assms(1) have "repo_inv c" unfolding reachable_def by (rule reachable_by_inv)
  then have u: "distinct (map triple (docs c))" by (simp add: repo_inv_def unique_triples_def)
  from assms(2) have ex: "list_ex (\<lambda>d. triple d = ?t) (docs c)"
    by (auto simp: has_store_iff list_ex_iff)
  then have 1: "delete_key c ds s ''__store__'' = (?c', True)"
    by (simp add: delete_key_def delete_one_def matches_key_fun)
  from remove_first_distinct[OF u, of ?t] have 2: "\<not> has_store ?c' ds s"
    by (auto simp: has_store_iff)
  have f: "filter Q (docs ?c') = filter Q (docs c)" if "\<forall>d. Q d \<longrightarrow> key d \<noteq> ''__store__''" for Q
  proof -
    have "\<forall>d. triple d = ?t \<longrightarrow> \<not> Q d"
      using that by (auto simp: triple_def)
    then show ?thesis by (simp add: filter_remove_first)
  qed
  have 3: "list_keys ?c' ds s = list_keys c ds s"
    using f[of "\<lambda>d. store_name d = s \<and> key d \<noteq> ''__store__'' \<and> dataset_id d = ds"]
    by (simp add: list_keys_def find_docs_def matches_fun)
  have 4: "count_keys ?c' ds s = count_keys c ds s"
    using f[of "\<lambda>d. store_name d = s \<and> key d \<noteq> ''__store__'' \<and> dataset_id d = ds"]
    by (simp add: count_keys_def count_documents_def matches_fun)
  have 5: "filter (\<lambda>d. key d \<noteq> ''__store__'') (docs ?c')
               = filter (\<lambda>d. key d \<noteq> ''__store__'') (docs c)"
    using f[of "\<lambda>d. key d \<noteq> ''__store__''"] by simp
  have 6: "Suc (length (docs ?c')) = length (docs c)"
    using length_remove_first[OF ex] by simp
  from 1 2 3 4 5 6 show ?thesis by blast
qed

theorem delete_key_marker_witness:
  "reachable (exec (Some 1) (Set_key 100 ''s'' ''k'' (Some 5) None)
                (exec (Some 1) (Create_store ''s'') (initial :: nat collection)))
   \<and> has_store (exec (Some 1) (Set_key 100 ''s'' ''k'' (Some 5) None)
                  (exec (Some 1) (Create_store ''s'') (initial :: nat collection)))
        (Some 1) ''s''
   \<and> (\<exists>c'. delete_key (exec (Some 1) (Set_key 100 ''s'' ''k'' (Some 5) None)
                          (exec (Some 1) (Create_store ''s'') (initial :: nat collection)))
               (Some 1) ''s'' ''__store__'' = (c', True)
          \<and> \<not> has_store c' (Some 1) ''s''
          \<and> list_keys c' (Some 1) ''s'' = [''k''])"
proof -
  let ?c1 = "exec (Some 1) (Create_store ''s'') (initial :: nat collection)"
  let ?c2 = "exec (Some 1) (Set_key 100 ''s'' ''k'' (Some 5) None) ?c1"
  have "reachable_by (\<lambda>op. True) (initial :: nat collection)"
    by (rule reachable_by.fresh[OF initial_eq])
  then have "reachable_by (\<lambda>op. True) ?c1" by (rule reachable_by.step) simp
  then have "reachable_by (\<lambda>op. True) ?c2" by (rule reachable_by.step) simp
  then have r: "reachable ?c2" by (simp add: reachable_def)
  have h: "has_store ?c2 (Some 1) ''s''"
    by (simp add: run_defs create_store_def insert_one_def StoreDocument_def has_store_def)
  have l: "list_keys ?c2 (Some 1) ''s'' = [''k'']"
    by (simp add: run_defs create_store_def insert_one_def StoreDocument_def list_keys_def
        find_docs_def)
  from delete_key_marker[OF r h] obtain c' where
    "delete_key ?c2 (Some 1) ''s'' ''__store__'' = (c', True)" "\<not> has_store c' (Some 1) ''s''"
    "list_keys c' (Some 1) ''s'' = list_keys ?c2 (Some 1) ''s''"
    by blast
  with r h l show ?thesis by metis
qed

end
